theory Spec2Isabelle
  imports Main
begin

section \<open>The bounded cross-thread queue \<open>cross_thread_limited_fifo_t\<close>\<close>

text \<open>
  The queue lives on two threads. The source thread calls \<open>push\<close>; the home thread owns
  the buffer and runs \<open>do_push\<close> and \<open>produce_next_value\<close>. The two sides talk only
  through closures posted with \<open>do_on_thread\<close>. The model is an interleaving one: the
  object's fields together with the posted closures, the pushes suspended in
  \<open>co_lock\<close> and the phase of the destructor form the state, every member function takes
  the thread it runs on and returns the next state, and a history is a list of events.
  Thread identifiers are C++ \<open>int\<close>s and are modelled as \<open>int\<close>.
\<close>

subsection \<open>Outcomes, closures and the record of effects\<close>

text \<open>
  \<open>rassert\<close> and \<open>assert_thread\<close> abort the process; \<open>front\<close> on an empty
  \<open>std::list\<close> is undefined. Both are outcomes of their own, never values.
\<close>

datatype failure = Assertion_failed | Undefined_behaviour

text \<open>The two closures of the source: \<open>do_pusher_t\<close> and \<open>do_done_caller_t\<close>.\<close>

datatype 'v closure = Do_pusher 'v | Do_done_caller

text \<open>
  Every effect of a statement on a field or on a collaborator. The trace of a state lists
  them in execution order, each with the thread it ran on, so that the order of the
  statements of a member function can be read off its result.
\<close>

datatype 'v action =
    A_set_in_destructor
  | A_queue_size nat
  | A_on_thread int
  | A_on_thread_exit int
  | A_drain_acquire
  | A_drain_release
  | A_drain_drain
  | A_drain_rethread int
  | A_sem_co_lock
  | A_sem_wait
  | A_sem_unlock
  | A_sem_set_capacity int
  | A_do_on_thread int "'v closure"
  | A_push_back 'v
  | A_front 'v
  | A_pop_front
  | A_set_available bool

subsection \<open>The object\<close>

text \<open>
  Modelled from the spec: \<open>adjustable_semaphore_t\<close> (concurrency/semaphore.hpp) is not
  part of the sources. The spec gives it a counter of acquired slots under an adjustable
  bound. The trickle mechanism is a \<open>float\<close> and is left out: this is the semaphore at
  the constructor's default \<open>trickle_fraction = 0.0\<close>.
\<close>

record adjustable_semaphore =
  capacity :: int
  current :: int

text \<open>
  Modelled from the spec: \<open>drain_semaphore_t\<close> (concurrency/drain_semaphore.hpp) is not
  part of the sources. The spec gives it a count of units acquired and not yet released
  and the thread it considers its home.
\<close>

record drain_semaphore_t =
  refcount :: int
  drain_home :: int

text \<open>
  The destructor suspends inside \<open>drain()\<close>; \<open>Draining t\<close> is that suspended call,
  \<open>t\<close> the thread its \<open>on_thread_t\<close> returns to.
\<close>

datatype lifetime = Alive | Draining int | Destroyed

text \<open>
  The fields of the struct (\<open>home_thread\<close> comes from \<open>home_thread_mixin_t\<close>),
  followed by what the runtime holds for it: the closures posted and not yet run, each
  with its target thread, in posting order; the values of the pushes suspended in
  \<open>co_lock\<close>, in arrival order; the phase of the destructor; the trace.
\<close>

record 'v fifo =
  home_thread :: int
  source_thread :: int
  semaphore :: adjustable_semaphore
  drain_semaphore :: drain_semaphore_t
  in_destructor :: bool
  queue :: "'v list"
  available_control :: bool
  mail :: "(int \<times> 'v closure) list"
  waiters :: "'v list"
  dtor :: lifetime
  trace :: "(int \<times> 'v action) list"

definition emit :: "int \<Rightarrow> 'v action \<Rightarrow> 'v fifo \<Rightarrow> 'v fifo" where
  "emit t a s = s\<lparr>trace := trace s @ [(t, a)]\<rparr>"

subsection \<open>The collaborators\<close>

text \<open>
  Modelled from the spec: \<open>drain_semaphore_t::acquire\<close> is not part of the sources. It
  is acquired once per unit of work in flight: the count goes up by one.
\<close>

definition drain_acquire :: "int \<Rightarrow> 'v fifo \<Rightarrow> 'v fifo" where
  "drain_acquire t s =
     emit t A_drain_acquire
       (s\<lparr>drain_semaphore := (drain_semaphore s)\<lparr>refcount := refcount (drain_semaphore s) + 1\<rparr>\<rparr>)"

text \<open>
  Modelled from the spec: \<open>drain_semaphore_t::release\<close> is not part of the sources. It
  is released once the unit of work is complete: the count goes down by one.
\<close>

definition drain_release :: "int \<Rightarrow> 'v fifo \<Rightarrow> 'v fifo" where
  "drain_release t s =
     emit t A_drain_release
       (s\<lparr>drain_semaphore := (drain_semaphore s)\<lparr>refcount := refcount (drain_semaphore s) - 1\<rparr>\<rparr>)"

text \<open>
  Modelled from the spec: \<open>drain_semaphore_t::rethread\<close> is not part of the sources. It
  reassigns the thread the primitive considers its home.
\<close>

definition drain_rethread :: "int \<Rightarrow> int \<Rightarrow> 'v fifo \<Rightarrow> 'v fifo" where
  "drain_rethread t new_thread s =
     emit t (A_drain_rethread new_thread)
       (s\<lparr>drain_semaphore := (drain_semaphore s)\<lparr>drain_home := new_thread\<rparr>\<rparr>)"

text \<open>
  Modelled from the spec: \<open>drain_semaphore_t::drain\<close> is not part of the sources. It
  blocks until the count is zero: \<open>drain_drain\<close> is the call, \<open>drained\<close> the condition
  under which it returns, and the wait in between is the \<open>Draining\<close> phase of the
  destructor below.
\<close>

definition drain_drain :: "int \<Rightarrow> 'v fifo \<Rightarrow> 'v fifo" where
  "drain_drain t s = emit t A_drain_drain s"

definition drained :: "'v fifo \<Rightarrow> bool" where
  "drained s = (refcount (drain_semaphore s) = 0)"

text \<open>
  Modelled from the spec: \<open>adjustable_semaphore_t::co_lock\<close> is not part of the sources.
  Acquiring may suspend the caller until a slot is free. A slot is free (\<open>sem_free\<close>)
  while fewer than \<open>capacity\<close> are acquired; \<open>sem_take\<close> is \<open>co_lock\<close> returning with
  the slot; \<open>sem_wait\<close> is \<open>co_lock\<close> suspending the caller, which queues behind the
  callers suspended before it and keeps the value it is about to post.
\<close>

definition sem_free :: "'v fifo \<Rightarrow> bool" where
  "sem_free s = (current (semaphore s) < capacity (semaphore s))"

definition sem_take :: "int \<Rightarrow> 'v fifo \<Rightarrow> 'v fifo" where
  "sem_take t s =
     emit t A_sem_co_lock
       (s\<lparr>semaphore := (semaphore s)\<lparr>current := current (semaphore s) + 1\<rparr>\<rparr>)"

definition sem_wait :: "int \<Rightarrow> 'v \<Rightarrow> 'v fifo \<Rightarrow> 'v fifo" where
  "sem_wait t v s = emit t A_sem_wait (s\<lparr>waiters := waiters s @ [v]\<rparr>)"

text \<open>
  Modelled from the spec: \<open>adjustable_semaphore_t::unlock\<close> is not part of the sources.
  Releasing returns one slot.
\<close>

definition sem_unlock :: "int \<Rightarrow> 'v fifo \<Rightarrow> 'v fifo" where
  "sem_unlock t s =
     emit t A_sem_unlock
       (s\<lparr>semaphore := (semaphore s)\<lparr>current := current (semaphore s) - 1\<rparr>\<rparr>)"

text \<open>
  Modelled from the spec: \<open>adjustable_semaphore_t::set_capacity\<close> is not part of the
  sources. It replaces the bound and does not release slots already acquired.
\<close>

definition sem_set_capacity :: "int \<Rightarrow> int \<Rightarrow> 'v fifo \<Rightarrow> 'v fifo" where
  "sem_set_capacity t n s =
     emit t (A_sem_set_capacity n) (s\<lparr>semaphore := (semaphore s)\<lparr>capacity := n\<rparr>\<rparr>)"

text \<open>
  Modelled from the spec: \<open>do_on_thread\<close> (do_on_thread.hpp) is not part of the sources.
  It is the spec's \<open>post\<close>: the closure is queued for its target thread behind
  everything posted before it, and the caller goes on without waiting.
\<close>

definition do_on_thread :: "int \<Rightarrow> int \<Rightarrow> 'v closure \<Rightarrow> 'v fifo \<Rightarrow> 'v fifo" where
  "do_on_thread t target c s = emit t (A_do_on_thread target c) (s\<lparr>mail := mail s @ [(target, c)]\<rparr>)"

text \<open>
  Modelled from the spec: \<open>on_thread_t\<close> is not part of the sources. It is the spec's
  \<open>run_on\<close>: its constructor (\<open>on_thread\<close>) moves the caller from thread \<open>t\<close> to the
  target thread, where the rest of the scope runs.
\<close>

definition on_thread :: "int \<Rightarrow> int \<Rightarrow> 'v fifo \<Rightarrow> 'v fifo" where
  "on_thread t target s = emit t (A_on_thread target) s"

text \<open>
  Modelled from the spec: the end of an \<open>on_thread_t\<close> scope, not part of the sources.
  Control returns from thread \<open>t\<close> to the thread the caller came from.
\<close>

definition on_thread_exit :: "int \<Rightarrow> int \<Rightarrow> 'v fifo \<Rightarrow> 'v fifo" where
  "on_thread_exit t origin s = emit t (A_on_thread_exit origin) s"

text \<open>
  Modelled from the spec: \<open>availability_control_t::set_available\<close>
  (concurrency/queue/passive_producer.hpp) is not part of the sources. The availability
  signal is a flag that it overwrites.
\<close>

definition set_available :: "int \<Rightarrow> bool \<Rightarrow> 'v fifo \<Rightarrow> 'v fifo" where
  "set_available t b s = emit t (A_set_available b) (s\<lparr>available_control := b\<rparr>)"

text \<open>
  \<open>push_back\<close> and \<open>pop_front\<close> of \<open>std::list\<close>; \<open>pop_front\<close> is only called on a
  non-empty list.
\<close>

definition push_back :: "int \<Rightarrow> 'v \<Rightarrow> 'v fifo \<Rightarrow> 'v fifo" where
  "push_back t v s = emit t (A_push_back v) (s\<lparr>queue := queue s @ [v]\<rparr>)"

definition pop_front :: "int \<Rightarrow> 'v fifo \<Rightarrow> 'v fifo" where
  "pop_front t s = emit t A_pop_front (s\<lparr>queue := tl (queue s)\<rparr>)"

subsection \<open>The member functions\<close>

text \<open>
  The constructor, run on thread \<open>h\<close>, which becomes the home thread: first the member
  initialisers (the availability signal starts false, the queue empty, no slot acquired),
  then the body. \<open>assert_good_thread_id\<close> is not part of the sources: the set of good
  thread identifiers is the parameter \<open>good\<close>.
\<close>

definition initialised :: "int \<Rightarrow> int \<Rightarrow> int \<Rightarrow> 'v fifo" where
  "initialised h st cap =
     \<lparr>home_thread = h, source_thread = st,
      semaphore = \<lparr>capacity = cap, current = 0\<rparr>,
      drain_semaphore = \<lparr>refcount = 0, drain_home = h\<rparr>,
      in_destructor = False, queue = [], available_control = False,
      mail = [], waiters = [], dtor = Alive, trace = []\<rparr>"

definition cross_thread_limited_fifo ::
    "(int \<Rightarrow> bool) \<Rightarrow> int \<Rightarrow> int \<Rightarrow> int \<Rightarrow> failure + 'v fifo" where
  "cross_thread_limited_fifo good h st cap =
     (let s = initialised h st cap
      in if \<not> good (source_thread s) then Inl Assertion_failed
         else Inr (drain_rethread h (source_thread s) s))"

text \<open>The statement of \<open>push\<close> after \<open>co_lock\<close> has returned.\<close>

definition push_post :: "int \<Rightarrow> 'v \<Rightarrow> 'v fifo \<Rightarrow> 'v fifo" where
  "push_post t v s = do_on_thread t (home_thread s) (Do_pusher v) s"

definition push :: "int \<Rightarrow> 'v \<Rightarrow> 'v fifo \<Rightarrow> failure + 'v fifo" where
  "push t v s =
     (if t \<noteq> source_thread s then Inl Assertion_failed
      else let s1 = drain_acquire t s
           in if waiters s1 = [] \<and> sem_free s1
              then Inr (push_post t v (sem_take t s1))
              else Inr (sem_wait t v s1))"

text \<open>
  Modelled from the spec: the other half of \<open>co_lock\<close>, not part of the sources. A
  suspended caller goes on once a slot is free: the push that has waited longest takes
  the slot, its \<open>co_lock\<close> returns, and it goes on with the rest of \<open>push\<close> on the
  source thread, where it was suspended.
\<close>

definition resume_push :: "'v fifo \<Rightarrow> 'v fifo" where
  "resume_push s =
     (case waiters s of
        [] \<Rightarrow> s
      | v # ws \<Rightarrow>
          if sem_free s
          then push_post (source_thread s) v (sem_take (source_thread s) (s\<lparr>waiters := ws\<rparr>))
          else s)"

definition set_capacity :: "int \<Rightarrow> int \<Rightarrow> 'v fifo \<Rightarrow> 'v fifo" where
  "set_capacity t n s =
     (let s1 = on_thread t (source_thread s) s;
          s2 = sem_set_capacity (source_thread s) n s1
      in on_thread_exit (source_thread s) t s2)"

definition do_push :: "int \<Rightarrow> 'v \<Rightarrow> 'v fifo \<Rightarrow> failure + 'v fifo" where
  "do_push t v s =
     (if t \<noteq> home_thread s then Inl Assertion_failed
      else if in_destructor s then Inl Assertion_failed
      else let s1 = push_back t v s
           in Inr (set_available t (queue s1 \<noteq> []) s1))"

definition do_done :: "int \<Rightarrow> 'v fifo \<Rightarrow> failure + 'v fifo" where
  "do_done t s =
     (if t \<noteq> source_thread s then Inl Assertion_failed
      else Inr (drain_release t (sem_unlock t s)))"

definition produce_next_value :: "int \<Rightarrow> 'v fifo \<Rightarrow> failure + ('v \<times> 'v fifo)" where
  "produce_next_value t s =
     (if t \<noteq> home_thread s then Inl Assertion_failed
      else if in_destructor s then Inl Assertion_failed
      else case queue s of
             [] \<Rightarrow> Inl Undefined_behaviour
           | v # _ \<Rightarrow>
               let s1 = emit t (A_front v) s;
                   s2 = pop_front t s1;
                   s3 = do_on_thread t (source_thread s2) Do_done_caller s2
               in Inr (v, set_available t (queue s3 \<noteq> []) s3))"

text \<open>The loop \<open>for (int i = 0; i < n; i++) drain_semaphore.release();\<close> of the destructor.\<close>

primrec release_times :: "int \<Rightarrow> nat \<Rightarrow> 'v fifo \<Rightarrow> 'v fifo" where
  "release_times t 0 s = s"
| "release_times t (Suc n) s = release_times t n (drain_release t s)"

text \<open>
  The destructor after \<open>drain()\<close> has returned: the \<open>on_thread_t\<close> goes out of scope
  and the drain primitive is handed back to the home thread.
\<close>

definition destructor_finish :: "int \<Rightarrow> 'v fifo \<Rightarrow> 'v fifo" where
  "destructor_finish t s =
     (let s1 = on_thread_exit (source_thread s) t s;
          s2 = drain_rethread t (home_thread s1) s1
      in s2\<lparr>dtor := Destroyed\<rparr>)"

text \<open>
  The destructor, called on thread \<open>t\<close>, up to the point where \<open>drain()\<close> either returns
  at once or suspends. The number of elements is a \<open>nat\<close>: the source narrows
  \<open>queue.size()\<close> to \<open>int\<close>, which is exact for every length below \<open>2^31\<close>, and the
  capacity, an \<open>int\<close> itself, keeps the buffer below that.
\<close>

definition destructor :: "int \<Rightarrow> 'v fifo \<Rightarrow> 'v fifo" where
  "destructor t s =
     (let s1 = emit t A_set_in_destructor (s\<lparr>in_destructor := True\<rparr>);
          number_times_to_release_drain_semaphore = length (queue s1);
          s2 = emit t (A_queue_size number_times_to_release_drain_semaphore) s1;
          s3 = on_thread t (source_thread s2) s2;
          s4 = release_times (source_thread s3) number_times_to_release_drain_semaphore s3;
          s5 = drain_drain (source_thread s4) s4
      in if drained s5 then destructor_finish t s5 else s5\<lparr>dtor := Draining t\<rparr>)"

text \<open>The suspended \<open>drain()\<close> returns once the count is zero, and not before.\<close>

definition resume_destructor :: "'v fifo \<Rightarrow> 'v fifo" where
  "resume_destructor s =
     (case dtor s of
        Draining t \<Rightarrow> if drained s then destructor_finish t s else s
      | _ \<Rightarrow> s)"

subsection \<open>Histories\<close>

text \<open>
  The scheduler runs, on thread \<open>t\<close>, the closure posted to \<open>t\<close> the longest ago.
  \<open>take_posted\<close> finds it and removes it from the posted closures.
\<close>

fun take_posted :: "int \<Rightarrow> (int \<times> 'v closure) list \<Rightarrow> ('v closure \<times> (int \<times> 'v closure) list) option" where
  "take_posted t [] = None"
| "take_posted t ((t', c) # ms) =
     (if t' = t then Some (c, ms)
      else case take_posted t ms of
             None \<Rightarrow> None
           | Some (c', ms') \<Rightarrow> Some (c', (t', c) # ms'))"

definition run_posted :: "int \<Rightarrow> 'v fifo \<Rightarrow> failure + 'v fifo" where
  "run_posted t s =
     (case take_posted t (mail s) of
        None \<Rightarrow> Inr s
      | Some (Do_pusher v, ms) \<Rightarrow> do_push t v (s\<lparr>mail := ms\<rparr>)
      | Some (Do_done_caller, ms) \<Rightarrow> do_done t (s\<lparr>mail := ms\<rparr>))"

text \<open>
  What can happen to the object: a call of a public member function on some thread, the
  scheduler running a posted closure, or the runtime resuming a suspended coroutine.
\<close>

datatype 'v event =
    Call_push int 'v
  | Resume_push
  | Run_posted int
  | Call_produce_next_value int
  | Call_set_capacity int int
  | Call_destructor int
  | Resume_destructor

text \<open>
  One event; the list is what the consumer received from it. An object is destroyed once,
  and nothing may touch it after its destructor has returned: both are undefined
  behaviour of the language.
\<close>

fun member :: "'v event \<Rightarrow> 'v fifo \<Rightarrow> failure + ('v list \<times> 'v fifo)" where
  "member (Call_push t v) s = (case push t v s of Inl f \<Rightarrow> Inl f | Inr s' \<Rightarrow> Inr ([], s'))"
| "member Resume_push s = Inr ([], resume_push s)"
| "member (Run_posted t) s = (case run_posted t s of Inl f \<Rightarrow> Inl f | Inr s' \<Rightarrow> Inr ([], s'))"
| "member (Call_produce_next_value t) s =
     (case produce_next_value t s of Inl f \<Rightarrow> Inl f | Inr (v, s') \<Rightarrow> Inr ([v], s'))"
| "member (Call_set_capacity t n) s = Inr ([], set_capacity t n s)"
| "member (Call_destructor t) s =
     (if dtor s \<noteq> Alive then Inl Undefined_behaviour else Inr ([], destructor t s))"
| "member Resume_destructor s = Inr ([], resume_destructor s)"

definition step :: "'v event \<Rightarrow> 'v fifo \<Rightarrow> failure + ('v list \<times> 'v fifo)" where
  "step e s = (if dtor s = Destroyed then Inl Undefined_behaviour else member e s)"

text \<open>A history stops at the first fatal outcome.\<close>

fun run :: "'v event list \<Rightarrow> 'v fifo \<Rightarrow> failure + ('v list \<times> 'v fifo)" where
  "run [] s = Inr ([], s)"
| "run (e # es) s =
     (case step e s of
        Inl f \<Rightarrow> Inl f
      | Inr (out, s1) \<Rightarrow>
          (case run es s1 of
             Inl f \<Rightarrow> Inl f
           | Inr (outs, s2) \<Rightarrow> Inr (out @ outs, s2)))"

subsection \<open>What the properties speak about\<close>

text \<open>Drain units acquired and released so far, counted on the trace.\<close>

definition count_action :: "'v action \<Rightarrow> 'v fifo \<Rightarrow> nat" where
  "count_action a s = length (filter (\<lambda>(t, x). x = a) (trace s))"

definition drain_acquired :: "'v fifo \<Rightarrow> nat" where
  "drain_acquired s = count_action A_drain_acquire s"

definition drain_released :: "'v fifo \<Rightarrow> nat" where
  "drain_released s = count_action A_drain_release s"

text \<open>The append and completion closures in flight between the two threads.\<close>

definition in_flight :: "'v fifo \<Rightarrow> nat" where
  "in_flight s = length (mail s)"

text \<open>The values of the append closures in flight, in posting order.\<close>

fun appends :: "(int \<times> 'v closure) list \<Rightarrow> 'v list" where
  "appends [] = []"
| "appends ((t, Do_pusher v) # ms) = v # appends ms"
| "appends ((t, Do_done_caller) # ms) = appends ms"





text \<open>The part of the trace that an operation taking \<open>s\<close> to \<open>s'\<close> added.\<close>

definition added :: "'v fifo \<Rightarrow> 'v fifo \<Rightarrow> (int \<times> 'v action) list" where
  "added s s' = drop (length (trace s)) (trace s')"

text \<open>Whether an action operates the drain primitive's counter.\<close>

fun drain_op :: "'v action \<Rightarrow> bool" where
  "drain_op A_drain_acquire = True"
| "drain_op A_drain_release = True"
| "drain_op A_drain_drain = True"
| "drain_op a = False"

text \<open>
  The accounting of the drain primitive: its count is the number of buffered elements,
  closures in flight and suspended pushes, and it is the number of units acquired less
  the number released.
\<close>

definition conserved :: "'v fifo \<Rightarrow> bool" where
  "conserved s =
     (refcount (drain_semaphore s) =
        int (length (queue s)) + int (in_flight s) + int (length (waiters s)) \<and>
      int (drain_acquired s) - int (drain_released s) = refcount (drain_semaphore s))"

text \<open>
  Where the drain primitive lives: on the source thread until the destructor has
  returned, on the home thread afterwards; and its counter is only ever operated on the
  source thread.
\<close>

definition drain_on_source :: "'v fifo \<Rightarrow> bool" where
  "drain_on_source s =
     (drain_home (drain_semaphore s) =
        (if dtor s = Destroyed then home_thread s else source_thread s) \<and>
      (\<forall>(t, a) \<in> set (trace s). drain_op a \<longrightarrow> t = source_thread s))"

text \<open>
  Closures are posted to the thread they must run on: appends to the home thread,
  completions to the source thread.
\<close>

fun routed :: "int \<Rightarrow> int \<Rightarrow> (int \<times> 'v closure) list \<Rightarrow> bool" where
  "routed h st [] = True"
| "routed h st ((t, Do_pusher v) # ms) = (t = h \<and> routed h st ms)"
| "routed h st ((t, Do_done_caller) # ms) = (t = st \<and> routed h st ms)"

text \<open>
  Correct usage, event by event: \<open>push\<close> is called on the source thread and
  \<open>produce_next_value\<close> on the home thread, neither once teardown has begun, and the
  object is destroyed only when no append is in flight and no push is suspended. What the
  scheduler and the runtime do is not the user's to get right.
\<close>

fun allowed :: "'v event \<Rightarrow> 'v fifo \<Rightarrow> bool" where
  "allowed (Call_push t v) s = (t = source_thread s \<and> \<not> in_destructor s)"
| "allowed (Call_produce_next_value t) s = (t = home_thread s \<and> \<not> in_destructor s)"
| "allowed (Call_destructor t) s = (appends (mail s) = [] \<and> waiters s = [])"
| "allowed e s = True"

text \<open>A history every event of which is correct usage in the state it meets.\<close>

fun correct_usage :: "'v event list \<Rightarrow> 'v fifo \<Rightarrow> bool" where
  "correct_usage [] s = True"
| "correct_usage (e # es) s =
     (allowed e s \<and>
      (case step e s of Inl f \<Rightarrow> True | Inr (out, s1) \<Rightarrow> correct_usage es s1))"

text \<open>
  What correct usage maintains: closures are routed to their threads, and once teardown
  has begun no append is in flight and no push is suspended.
\<close>

definition quiet_teardown :: "'v fifo \<Rightarrow> bool" where
  "quiet_teardown s =
     (routed (home_thread s) (source_thread s) (mail s) \<and>
      (in_destructor s \<longrightarrow> appends (mail s) = [] \<and> waiters s = []))"

subsection \<open>Example histories\<close>

text \<open>
  The state a history leaves the object in: the process aborts at a fatal outcome, with
  the object as it was then.
\<close>

fun state_after :: "'v event list \<Rightarrow> 'v fifo \<Rightarrow> 'v fifo" where
  "state_after [] s = s"
| "state_after (e # es) s =
     (case step e s of Inl f \<Rightarrow> s | Inr (out, s1) \<Rightarrow> state_after es s1)"

text \<open>A runtime with four threads, \<open>0\<close> to \<open>3\<close>.\<close>

definition four_threads :: "int \<Rightarrow> bool" where
  "four_threads t = (0 \<le> t \<and> t < 4)"

text \<open>
  A queue of natural numbers as its constructor leaves it, built on home thread \<open>0\<close>
  for source thread \<open>1\<close>.
\<close>

definition fresh :: "int \<Rightarrow> nat fifo" where
  "fresh cap = drain_rethread 0 1 (initialised 0 1 cap)"

text \<open>Three values pushed and appended, nothing in flight: the spec's teardown scenario.\<close>

definition three_buffered :: "nat fifo" where
  "three_buffered =
     state_after [Call_push 1 10, Call_push 1 20, Call_push 1 30,
                  Run_posted 0, Run_posted 0, Run_posted 0] (fresh 3)"

text \<open>
  Capacity one: the first value is buffered, the second push is suspended in
  \<open>co_lock\<close>; no closure is in flight.
\<close>

definition one_buffered_one_suspended :: "nat fifo" where
  "one_buffered_one_suspended =
     state_after [Call_push 1 10, Run_posted 0, Call_push 1 20] (fresh 1)"

text \<open>Capacity one: the first append is in flight, the second push is suspended.\<close>

definition one_posted_one_suspended :: "nat fifo" where
  "one_posted_one_suspended = state_after [Call_push 1 10, Call_push 1 20] (fresh 1)"

text \<open>One value buffered, one popped with its completion in flight, one push suspended.\<close>

definition mixed :: "nat fifo" where
  "mixed =
     state_after [Call_push 1 10, Call_push 1 20, Run_posted 0, Run_posted 0,
                  Call_produce_next_value 0, Call_push 1 30] (fresh 2)"

text \<open>
  One value buffered and one popped, its completion closure still in flight; and the same
  queue with its destructor suspended in \<open>drain()\<close> and the completion run since.
\<close>

definition one_completing :: "nat fifo" where
  "one_completing =
     state_after [Call_push 1 10, Call_push 1 20, Run_posted 0, Run_posted 0,
                  Call_produce_next_value 0] (fresh 2)"

definition one_completed :: "nat fifo" where
  "one_completed =
     state_after [Call_push 1 10, Call_push 1 20, Run_posted 0, Run_posted 0,
                  Call_produce_next_value 0, Call_destructor 0, Run_posted 1] (fresh 2)"

text \<open>A queue with one value buffered, and the same queue after its destructor has returned.\<close>

definition one_buffered :: "nat fifo" where
  "one_buffered = state_after [Call_push 1 10, Run_posted 0] (fresh 2)"

definition torn_down :: "nat fifo" where
  "torn_down = state_after [Call_push 1 10, Run_posted 0, Call_destructor 0] (fresh 2)"

lemmas collaborator_defs =
  emit_def drain_acquire_def drain_release_def drain_rethread_def drain_drain_def drained_def
  sem_free_def sem_take_def sem_wait_def sem_unlock_def sem_set_capacity_def
  do_on_thread_def on_thread_def on_thread_exit_def set_available_def push_back_def
  pop_front_def

lemmas member_defs =
  initialised_def cross_thread_limited_fifo_def push_post_def push_def resume_push_def
  set_capacity_def do_push_def do_done_def produce_next_value_def destructor_finish_def
  destructor_def resume_destructor_def run_posted_def step_def

lemmas count_defs =
  conserved_def in_flight_def drain_acquired_def drain_released_def count_action_def

lemmas eval_defs =
  member_defs collaborator_defs added_def four_threads_def fresh_def Let_def

section \<open>Properties\<close>

subsection \<open>The destructor's loop\<close>

lemma release_times_eq:
  "release_times t n s =
     s\<lparr>drain_semaphore := (drain_semaphore s)\<lparr>refcount := refcount (drain_semaphore s) - int n\<rparr>,
       trace := trace s @ replicate n (t, A_drain_release)\<rparr>"
proof (induction n arbitrary: s)
  case 0
  show ?case by simp
next
  case (Suc n)
  show ?case
    by (simp add: Suc.IH drain_release_def emit_def replicate_append_same)
qed

subsection \<open>Invariants of histories\<close>

lemma run_invariant:
  assumes "P s"
    and "\<And>e u out u'. P u \<Longrightarrow> step e u = Inr (out, u') \<Longrightarrow> P u'"
    and "run evs s = Inr (outs, s')"
  shows "P s'"
  using assms(1,3)
proof (induction evs arbitrary: s outs)
  case Nil
  then show ?case by simp
next
  case (Cons e evs)
  from Cons.prems(2) obtain out s1 outs1 where
    st: "step e s = Inr (out, s1)" and rest: "run evs s1 = Inr (outs1, s')"
    by (auto split: sum.splits prod.splits)
  from assms(2)[OF Cons.prems(1) st] have "P s1" .
  from Cons.IH[OF this rest] show ?case .
qed

lemma take_posted_length:
  "take_posted t ms = Some (c, ms') \<Longrightarrow> length ms = Suc (length ms')"
  by (induction ms arbitrary: c ms') (auto split: if_splits option.splits)

lemma step_threads:
  "step e s = Inr (out, s') \<Longrightarrow> home_thread s' = home_thread s \<and> source_thread s' = source_thread s"
  by (cases e)
     (auto simp: member_defs collaborator_defs release_times_eq Let_def
           split: if_splits list.splits option.splits closure.splits sum.splits prod.splits lifetime.splits)

lemma step_in_destructor:
  "step e s = Inr (out, s') \<Longrightarrow> in_destructor s \<Longrightarrow> in_destructor s'"
  by (cases e)
     (auto simp: member_defs collaborator_defs release_times_eq Let_def
           split: if_splits list.splits option.splits closure.splits sum.splits prod.splits lifetime.splits)

text \<open>The accounting of the drain primitive survives every event before teardown.\<close>

lemma step_conserved:
  assumes "conserved s" and "step e s = Inr (out, s')" and "\<not> in_destructor s'"
  shows "conserved s'"
proof (cases e)
  case (Run_posted t)
  with assms show ?thesis
    by (auto simp: member_defs collaborator_defs count_defs Let_def
           dest!: take_posted_length
           split: if_splits option.splits closure.splits sum.splits prod.splits)
next
  case (Call_destructor t)
  with assms show ?thesis
    by (auto simp: member_defs collaborator_defs release_times_eq Let_def split: if_splits)
next
  case Resume_destructor
  with assms show ?thesis
    by (auto simp: member_defs collaborator_defs count_defs Let_def split: if_splits lifetime.splits)
qed (use assms in \<open>auto simp: member_defs collaborator_defs count_defs Let_def
           split: if_splits list.splits sum.splits prod.splits\<close>)

lemma constructed_conserved:
  "cross_thread_limited_fifo good h st cap = Inr s \<Longrightarrow> conserved s \<and> \<not> in_destructor s"
  by (auto simp: member_defs collaborator_defs count_defs Let_def split: if_splits)

lemma reachable_conserved:
  assumes "cross_thread_limited_fifo good h st cap = Inr s0"
    and "run evs s0 = Inr (outs, s)" and "\<not> in_destructor s"
  shows "conserved s"
proof -
  have "\<not> in_destructor s \<longrightarrow> conserved s"
  proof (rule run_invariant[where P = "\<lambda>u. \<not> in_destructor u \<longrightarrow> conserved u", OF _ _ assms(2)])
    show "\<not> in_destructor s0 \<longrightarrow> conserved s0"
      using constructed_conserved[OF assms(1)] by simp
  next
    fix e u out u'
    assume "\<not> in_destructor u \<longrightarrow> conserved u" and "step e u = Inr (out, u')"
    then show "\<not> in_destructor u' \<longrightarrow> conserved u'"
      using step_conserved step_in_destructor by blast
  qed
  with assms(3) show ?thesis by simp
qed

text \<open>The pending values only grow at the tail and shrink at the head.\<close>

lemma appends_append: "appends (ms @ ms') = appends ms @ appends ms'"
  by (induction ms rule: appends.induct) auto







text \<open>The threads of the object and the home of the drain primitive.\<close>

lemma constructed_threads:
  "cross_thread_limited_fifo good h st cap = Inr s \<Longrightarrow>
   home_thread s = h \<and> source_thread s = st \<and> dtor s = Alive \<and>
   drain_home (drain_semaphore s) = st \<and> (\<forall>(t, a) \<in> set (trace s). \<not> drain_op a)"
  by (auto simp: member_defs collaborator_defs Let_def split: if_splits)

lemma reachable_threads:
  assumes "cross_thread_limited_fifo good h st cap = Inr s0" and "run evs s0 = Inr (outs, s)"
  shows "home_thread s = h \<and> source_thread s = st"
proof (rule run_invariant[where P = "\<lambda>u. home_thread u = h \<and> source_thread u = st", OF _ _ assms(2)])
  show "home_thread s0 = h \<and> source_thread s0 = st"
    using constructed_threads[OF assms(1)] by simp
next
  fix e u out u'
  assume "home_thread u = h \<and> source_thread u = st" and "step e u = Inr (out, u')"
  then show "home_thread u' = h \<and> source_thread u' = st"
    using step_threads by metis
qed

lemma step_drain_on_source:
  assumes "drain_on_source s" and "step e s = Inr (out, s')"
  shows "drain_on_source s'"
proof (cases e)
  case (Run_posted t)
  with assms show ?thesis
    by (auto simp: member_defs collaborator_defs drain_on_source_def Let_def
           split: if_splits option.splits closure.splits sum.splits prod.splits)
next
  case (Call_destructor t)
  with assms show ?thesis
    by (auto simp: member_defs collaborator_defs release_times_eq drain_on_source_def Let_def
             split: if_splits)
next
  case Resume_destructor
  with assms show ?thesis
    by (auto simp: member_defs collaborator_defs drain_on_source_def Let_def
             split: if_splits lifetime.splits)
qed (use assms in \<open>auto simp: member_defs collaborator_defs drain_on_source_def Let_def
           split: if_splits list.splits sum.splits prod.splits\<close>)

text \<open>The availability signal follows the buffer through every history.\<close>

lemma step_available:
  assumes "available_control s = (queue s \<noteq> [])" and "step e s = Inr (out, s')"
  shows "available_control s' = (queue s' \<noteq> [])"
proof (cases e)
  case (Run_posted t)
  with assms show ?thesis
    by (auto simp: member_defs collaborator_defs Let_def
           split: if_splits option.splits closure.splits sum.splits prod.splits)
next
  case (Call_destructor t)
  with assms show ?thesis
    by (auto simp: member_defs collaborator_defs release_times_eq Let_def split: if_splits)
next
  case Resume_destructor
  with assms show ?thesis
    by (auto simp: member_defs collaborator_defs Let_def split: if_splits lifetime.splits)
qed (use assms in \<open>auto simp: member_defs collaborator_defs Let_def
           split: if_splits list.splits sum.splits prod.splits\<close>)

lemma reachable_available:
  assumes "cross_thread_limited_fifo good h st cap = Inr s0" and "run evs s0 = Inr (outs, s)"
  shows "available_control s = (queue s \<noteq> [])"
proof (rule run_invariant[where P = "\<lambda>u. available_control u = (queue u \<noteq> [])", OF _ _ assms(2)])
  show "available_control s0 = (queue s0 \<noteq> [])"
    using assms(1) by (auto simp: member_defs collaborator_defs Let_def split: if_splits)
qed (rule step_available)

subsection \<open>Teardown\<close>

text \<open>
  C1, amended. In every state reached from the constructor in which teardown has not
  begun, the destructor run on the home thread \<open>h\<close> performs, in this order: it sets
  the destruction flag, reads the number \<open>k\<close> of buffered elements, switches to the
  source thread \<open>st\<close>, releases the drain counter exactly \<open>k\<close> times there and calls
  \<open>drain\<close>. It goes on at once (back to the home thread, then \<open>rethread\<close>) exactly
  when no closure is in flight and no push is suspended at the capacity semaphore;
  otherwise it stays suspended in \<open>drain\<close>, and the suspended call returns to the home
  thread only in a state whose drain count is zero.
\<close>

theorem destructor_sequence:
  assumes "cross_thread_limited_fifo good h st cap = Inr s0"
    and "run evs s0 = Inr (outs, s)" and "\<not> in_destructor s"
  shows "added s (destructor h s) =
           [(h, A_set_in_destructor), (h, A_queue_size (length (queue s))), (h, A_on_thread st)] @
           replicate (length (queue s)) (st, A_drain_release) @ [(st, A_drain_drain)] @
           (if in_flight s = 0 \<and> waiters s = []
            then [(st, A_on_thread_exit h), (h, A_drain_rethread h)] else []) \<and>
         in_destructor (destructor h s) \<and>
         dtor (destructor h s) = (if in_flight s = 0 \<and> waiters s = [] then Destroyed else Draining h) \<and>
         (\<forall>u. dtor u = Draining h \<and> home_thread u = h \<and> source_thread u = st \<longrightarrow>
            (if drained u
             then added u (resume_destructor u) = [(st, A_on_thread_exit h), (h, A_drain_rethread h)] \<and>
                  dtor (resume_destructor u) = Destroyed
             else resume_destructor u = u))"
proof -
  from reachable_threads[OF assms(1,2)] have th: "home_thread s = h" "source_thread s = st" by simp_all
  from reachable_conserved[OF assms]
  have rc: "refcount (drain_semaphore s) = int (length (queue s)) + int (in_flight s) + int (length (waiters s))"
    by (simp add: conserved_def)
  have z: "(refcount (drain_semaphore s) = int (length (queue s))) = (in_flight s = 0 \<and> waiters s = [])"
    using rc by (cases "waiters s") auto
  have a: "added s (destructor h s) =
           [(h, A_set_in_destructor), (h, A_queue_size (length (queue s))), (h, A_on_thread st)] @
           replicate (length (queue s)) (st, A_drain_release) @ [(st, A_drain_drain)] @
           (if in_flight s = 0 \<and> waiters s = []
            then [(st, A_on_thread_exit h), (h, A_drain_rethread h)] else [])"
    using th
    by (simp add: destructor_def destructor_finish_def release_times_eq added_def collaborator_defs Let_def z)
  have b: "in_destructor (destructor h s)"
    by (simp add: destructor_def destructor_finish_def release_times_eq collaborator_defs Let_def)
  have c: "dtor (destructor h s) = (if in_flight s = 0 \<and> waiters s = [] then Destroyed else Draining h)"
    using th
    by (simp add: destructor_def destructor_finish_def release_times_eq collaborator_defs Let_def z)
  have d: "\<forall>u. dtor u = Draining h \<and> home_thread u = h \<and> source_thread u = st \<longrightarrow>
            (if drained u
             then added u (resume_destructor u) = [(st, A_on_thread_exit h), (h, A_drain_rethread h)] \<and>
                  dtor (resume_destructor u) = Destroyed
             else resume_destructor u = u)"
    by (simp add: resume_destructor_def destructor_finish_def added_def collaborator_defs Let_def)
  from a b c d show ?thesis by blast
qed

theorem destructor_sequence_witness:
  "cross_thread_limited_fifo four_threads 0 1 3 = Inr (fresh 3) \<and>
   run [Call_push 1 10, Call_push 1 20, Call_push 1 30, Run_posted 0, Run_posted 0, Run_posted 0]
     (fresh 3) = Inr ([], three_buffered) \<and>
   \<not> in_destructor three_buffered \<and> queue three_buffered = [10, 20, 30] \<and>
   in_flight three_buffered = 0 \<and> waiters three_buffered = [] \<and>
   added three_buffered (destructor 0 three_buffered) =
     [(0, A_set_in_destructor), (0, A_queue_size 3), (0, A_on_thread 1),
      (1, A_drain_release), (1, A_drain_release), (1, A_drain_release), (1, A_drain_drain),
      (1, A_on_thread_exit 0), (0, A_drain_rethread 0)] \<and>
   dtor (destructor 0 three_buffered) = Destroyed \<and>
   cross_thread_limited_fifo four_threads 0 1 2 = Inr (fresh 2) \<and>
   run [Call_push 1 10, Call_push 1 20, Run_posted 0, Run_posted 0, Call_produce_next_value 0]
     (fresh 2) = Inr ([10], one_completing) \<and>
   \<not> in_destructor one_completing \<and> queue one_completing = [20] \<and>
   in_flight one_completing = 1 \<and>
   added one_completing (destructor 0 one_completing) =
     [(0, A_set_in_destructor), (0, A_queue_size 1), (0, A_on_thread 1),
      (1, A_drain_release), (1, A_drain_drain)] \<and>
   dtor (destructor 0 one_completing) = Draining 0 \<and>
   resume_destructor (destructor 0 one_completing) = destructor 0 one_completing \<and>
   dtor one_completed = Draining 0 \<and> drained one_completed \<and>
   added one_completed (resume_destructor one_completed) =
     [(1, A_on_thread_exit 0), (0, A_drain_rethread 0)] \<and>
   dtor (resume_destructor one_completed) = Destroyed"
proof -
  have c: "cross_thread_limited_fifo four_threads 0 1 3 = Inr (fresh 3)"
    by (simp add: eval_defs in_flight_def drained_def three_buffered_def one_completing_def one_completed_def)
  have r: "run [Call_push 1 10, Call_push 1 20, Call_push 1 30, Run_posted 0, Run_posted 0, Run_posted 0]
             (fresh 3) = Inr ([], three_buffered)"
    by (simp add: eval_defs in_flight_def drained_def three_buffered_def one_completing_def one_completed_def)
  have n: "\<not> in_destructor three_buffered"
    by (simp add: eval_defs in_flight_def drained_def three_buffered_def one_completing_def one_completed_def)
  have q: "queue three_buffered = [10, 20, 30]" "in_flight three_buffered = 0"
    "waiters three_buffered = []"
    by (simp_all add: eval_defs in_flight_def drained_def three_buffered_def one_completing_def one_completed_def)
  note d = destructor_sequence[OF c r n]
  have d1: "added three_buffered (destructor 0 three_buffered) =
     [(0, A_set_in_destructor), (0, A_queue_size 3), (0, A_on_thread 1),
      (1, A_drain_release), (1, A_drain_release), (1, A_drain_release), (1, A_drain_drain),
      (1, A_on_thread_exit 0), (0, A_drain_rethread 0)]"
    using d[THEN conjunct1] by (simp add: q numeral_3_eq_3)
  have d2: "dtor (destructor 0 three_buffered) = Destroyed"
    using d[THEN conjunct2, THEN conjunct2, THEN conjunct1] by (simp add: q)
  have c': "cross_thread_limited_fifo four_threads 0 1 2 = Inr (fresh 2)"
    by (simp add: eval_defs in_flight_def drained_def three_buffered_def one_completing_def one_completed_def)
  have r': "run [Call_push 1 10, Call_push 1 20, Run_posted 0, Run_posted 0,
                 Call_produce_next_value 0] (fresh 2) = Inr ([10], one_completing)"
    by (simp add: eval_defs in_flight_def drained_def three_buffered_def one_completing_def one_completed_def)
  have n': "\<not> in_destructor one_completing"
    by (simp add: eval_defs in_flight_def drained_def three_buffered_def one_completing_def one_completed_def)
  have q': "queue one_completing = [20]" "in_flight one_completing = 1"
    by (simp_all add: eval_defs in_flight_def drained_def three_buffered_def one_completing_def one_completed_def)
  note e = destructor_sequence[OF c' r' n']
  have e1: "added one_completing (destructor 0 one_completing) =
     [(0, A_set_in_destructor), (0, A_queue_size 1), (0, A_on_thread 1),
      (1, A_drain_release), (1, A_drain_drain)]"
    using e[THEN conjunct1] by (simp add: q')
  have e2: "dtor (destructor 0 one_completing) = Draining 0"
    using e[THEN conjunct2, THEN conjunct2, THEN conjunct1] by (simp add: q')
  note w = e[THEN conjunct2, THEN conjunct2, THEN conjunct2, rule_format]
  have u1: "home_thread (destructor 0 one_completing) = 0"
    "source_thread (destructor 0 one_completing) = 1" "\<not> drained (destructor 0 one_completing)"
    by (simp_all add: eval_defs in_flight_def drained_def three_buffered_def one_completing_def one_completed_def release_times_eq)
  have e3: "resume_destructor (destructor 0 one_completing) = destructor 0 one_completing"
    using w[of "destructor 0 one_completing"] e2 u1 by simp
  have u2: "dtor one_completed = Draining 0" "home_thread one_completed = 0"
    "source_thread one_completed = 1" "drained one_completed"
    by (simp_all add: eval_defs in_flight_def drained_def three_buffered_def one_completing_def one_completed_def)
  have e4: "added one_completed (resume_destructor one_completed) =
              [(1, A_on_thread_exit 0), (0, A_drain_rethread 0)] \<and>
            dtor (resume_destructor one_completed) = Destroyed"
    using w[of one_completed] u2 by simp
  from c r n q d1 d2 c' r' n' q' e1 e2 e3 u2(1,4) e4 show ?thesis by blast
qed

text \<open>
  C1 as stated fails: with capacity one, one element buffered, no closure in flight and a
  second push suspended in \<open>co_lock\<close>, the destructor releases the drain counter once
  and then stays blocked in \<open>drain\<close>, the count being one.
\<close>

theorem destructor_blocks_with_suspended_push:
  "run [Call_push 1 10, Run_posted 0, Call_push 1 20] (fresh 1) =
     Inr ([], one_buffered_one_suspended) \<and>
   home_thread one_buffered_one_suspended = 0 \<and>
   \<not> in_destructor one_buffered_one_suspended \<and>
   length (queue one_buffered_one_suspended) = 1 \<and>
   in_flight one_buffered_one_suspended = 0 \<and>
   added one_buffered_one_suspended (destructor 0 one_buffered_one_suspended) =
     [(0, A_set_in_destructor), (0, A_queue_size 1), (0, A_on_thread 1),
      (1, A_drain_release), (1, A_drain_drain)] \<and>
   dtor (destructor 0 one_buffered_one_suspended) = Draining 0 \<and>
   \<not> drained (destructor 0 one_buffered_one_suspended)"
  by (simp add: eval_defs in_flight_def one_buffered_one_suspended_def)

text \<open>
  C10. The destructor leaves the capacity semaphore, the buffer, the posted closures, the
  suspended pushes and the availability signal as they were. It lowers the drain count by
  the number \<open>k\<close> of buffered elements, with exactly \<open>k\<close> releases, and performs nothing
  but its own steps: no \<open>unlock\<close>, no \<open>front\<close> or \<open>pop_front\<close>, no posting. The
  completion operation on the source thread, by contrast, always succeeds and returns one
  slot and then one drain unit.
\<close>

theorem destructor_frame:
  "semaphore (destructor t s) = semaphore s \<and>
   queue (destructor t s) = queue s \<and>
   mail (destructor t s) = mail s \<and>
   waiters (destructor t s) = waiters s \<and>
   available_control (destructor t s) = available_control s \<and>
   refcount (drain_semaphore (destructor t s)) = refcount (drain_semaphore s) - int (length (queue s)) \<and>
   length (filter (\<lambda>(t', a). a = A_drain_release) (added s (destructor t s))) = length (queue s) \<and>
   snd ` set (added s (destructor t s)) \<subseteq>
     {A_set_in_destructor, A_queue_size (length (queue s)), A_on_thread (source_thread s),
      A_drain_release, A_drain_drain, A_on_thread_exit t, A_drain_rethread (home_thread s)} \<and>
   (\<exists>s'. do_done (source_thread s) s = Inr s' \<and>
      added s s' = [(source_thread s, A_sem_unlock), (source_thread s, A_drain_release)] \<and>
      current (semaphore s') = current (semaphore s) - 1 \<and>
      capacity (semaphore s') = capacity (semaphore s) \<and>
      refcount (drain_semaphore s') = refcount (drain_semaphore s) - 1 \<and>
      queue s' = queue s)"
  by (auto simp: destructor_def destructor_finish_def do_done_def release_times_eq added_def collaborator_defs Let_def)

theorem destructor_frame_witness:
  "semaphore (destructor 0 three_buffered) = \<lparr>capacity = 3, current = 3\<rparr> \<and>
   semaphore three_buffered = \<lparr>capacity = 3, current = 3\<rparr> \<and>
   queue (destructor 0 three_buffered) = [10, 20, 30] \<and>
   refcount (drain_semaphore three_buffered) = 3 \<and>
   refcount (drain_semaphore (destructor 0 three_buffered)) = 0 \<and>
   length (filter (\<lambda>(t', a). a = A_drain_release)
             (added three_buffered (destructor 0 three_buffered))) = 3 \<and>
   (\<exists>s'. do_done 1 three_buffered = Inr s' \<and>
      added three_buffered s' = [(1, A_sem_unlock), (1, A_drain_release)] \<and>
      semaphore s' = \<lparr>capacity = 3, current = 2\<rparr> \<and>
      refcount (drain_semaphore s') = 2 \<and> queue s' = [10, 20, 30])"
proof -
  have f: "source_thread three_buffered = 1" "current (semaphore three_buffered) = 3"
    "capacity (semaphore three_buffered) = 3" "refcount (drain_semaphore three_buffered) = 3"
    "queue three_buffered = [10, 20, 30]" "semaphore three_buffered = \<lparr>capacity = 3, current = 3\<rparr>"
    by (simp_all add: eval_defs three_buffered_def)
  note d = destructor_frame[of 0 three_buffered]
  from d f have 1: "semaphore (destructor 0 three_buffered) = \<lparr>capacity = 3, current = 3\<rparr>"
    "queue (destructor 0 three_buffered) = [10, 20, 30]"
    "refcount (drain_semaphore (destructor 0 three_buffered)) = 0"
    "length (filter (\<lambda>(t', a). a = A_drain_release)
             (added three_buffered (destructor 0 three_buffered))) = 3"
    by simp_all
  from d f obtain s' where s': "do_done 1 three_buffered = Inr s'"
    "added three_buffered s' = [(1, A_sem_unlock), (1, A_drain_release)]"
    "current (semaphore s') = 2" "capacity (semaphore s') = 3"
    "refcount (drain_semaphore s') = 2" "queue s' = [10, 20, 30]"
    by auto
  from s'(3,4) have "semaphore s' = \<lparr>capacity = 3, current = 2\<rparr>" by simp
  with 1 f s' show ?thesis by blast
qed

subsection \<open>Order of delivery\<close>



subsection \<open>Accounting\<close>

text \<open>
  C3, amended. In every state reached from the constructor in which teardown has not
  begun, the drain units acquired less the drain units released are the elements in the
  buffer, plus the append and completion closures in flight, plus the pushes suspended at
  the capacity semaphore.
\<close>

theorem conservation:
  assumes "cross_thread_limited_fifo good h st cap = Inr s0"
    and "run evs s0 = Inr (outs, s)" and "\<not> in_destructor s"
  shows "int (drain_acquired s) - int (drain_released s) =
         int (length (queue s)) + int (in_flight s) + int (length (waiters s))"
  using reachable_conserved[OF assms] by (simp add: conserved_def)

theorem conservation_witness:
  "cross_thread_limited_fifo four_threads 0 1 2 = Inr (fresh 2) \<and>
   run [Call_push 1 10, Call_push 1 20, Run_posted 0, Run_posted 0,
        Call_produce_next_value 0, Call_push 1 30] (fresh 2) = Inr ([10], mixed) \<and>
   \<not> in_destructor mixed \<and>
   length (queue mixed) = 1 \<and> in_flight mixed = 1 \<and> length (waiters mixed) = 1 \<and>
   int (drain_acquired mixed) - int (drain_released mixed) = 3"
proof -
  have c: "cross_thread_limited_fifo four_threads 0 1 2 = Inr (fresh 2)"
    by (simp add: eval_defs count_defs mixed_def)
  have r: "run [Call_push 1 10, Call_push 1 20, Run_posted 0, Run_posted 0,
        Call_produce_next_value 0, Call_push 1 30] (fresh 2) = Inr ([10], mixed)"
    by (simp add: eval_defs count_defs mixed_def)
  have n: "\<not> in_destructor mixed"
    by (simp add: eval_defs count_defs mixed_def)
  have q: "length (queue mixed) = 1" "in_flight mixed = 1" "length (waiters mixed) = 1"
    by (simp_all add: eval_defs count_defs mixed_def)
  from conservation[OF c r n] q c r n show ?thesis by simp
qed

text \<open>
  C3 as stated fails: with capacity one, after two pushes the second is suspended in
  \<open>co_lock\<close> with its drain unit acquired; two units are acquired and none released,
  while the buffer is empty and one closure is in flight.
\<close>

theorem conservation_misses_suspended_push:
  "run [Call_push 1 10, Call_push 1 20] (fresh 1) = Inr ([], one_posted_one_suspended) \<and>
   drain_acquired one_posted_one_suspended = 2 \<and>
   drain_released one_posted_one_suspended = 0 \<and>
   length (queue one_posted_one_suspended) = 0 \<and>
   in_flight one_posted_one_suspended = 1 \<and>
   int (drain_acquired one_posted_one_suspended) - int (drain_released one_posted_one_suspended) \<noteq>
     int (length (queue one_posted_one_suspended)) + int (in_flight one_posted_one_suspended)"
  by (simp add: eval_defs count_defs one_posted_one_suspended_def)

subsection \<open>The availability signal\<close>

text \<open>
  C4. When the append operation or \<open>produce_next_value\<close> returns, the availability
  signal is true exactly if the buffer is non-empty; and so it is in every state reached
  from the constructor.
\<close>

theorem availability_after_mutation:
  "(do_push t v s = Inr s' \<longrightarrow> available_control s' = (queue s' \<noteq> [])) \<and>
   (produce_next_value t s = Inr (x, s'') \<longrightarrow> available_control s'' = (queue s'' \<noteq> [])) \<and>
   (cross_thread_limited_fifo good h st cap = Inr s0 \<and> run evs s0 = Inr (outs, u) \<longrightarrow>
      available_control u = (queue u \<noteq> []))"
proof -
  have "do_push t v s = Inr s' \<longrightarrow> available_control s' = (queue s' \<noteq> [])"
    by (auto simp: do_push_def collaborator_defs Let_def split: if_splits)
  moreover
  have "produce_next_value t s = Inr (x, s'') \<longrightarrow> available_control s'' = (queue s'' \<noteq> [])"
    by (auto simp: produce_next_value_def collaborator_defs Let_def split: if_splits list.splits)
  moreover
  have "cross_thread_limited_fifo good h st cap = Inr s0 \<and> run evs s0 = Inr (outs, u) \<longrightarrow>
          available_control u = (queue u \<noteq> [])"
    using reachable_available by blast
  ultimately show ?thesis by blast
qed

theorem availability_after_mutation_witness:
  "(\<exists>s'. do_push 0 20 one_buffered = Inr s' \<and> queue s' = [10, 20] \<and> available_control s') \<and>
   (\<exists>s''. produce_next_value 0 one_buffered = Inr (10, s'') \<and> queue s'' = [] \<and>
      \<not> available_control s'') \<and>
   cross_thread_limited_fifo four_threads 0 1 2 = Inr (fresh 2) \<and>
   run [Call_push 1 10, Run_posted 0] (fresh 2) = Inr ([], one_buffered) \<and>
   queue one_buffered = [10] \<and> available_control one_buffered"
proof -
  obtain s' where e: "do_push 0 20 one_buffered = Inr s'" and q: "queue s' = [10, 20]"
    by (simp add: eval_defs one_buffered_def)
  obtain s'' where e': "produce_next_value 0 one_buffered = Inr (10, s'')" and q': "queue s'' = []"
    by (simp add: eval_defs one_buffered_def)
  have c: "cross_thread_limited_fifo four_threads 0 1 2 = Inr (fresh 2)"
    by (simp add: eval_defs one_buffered_def)
  have r: "run [Call_push 1 10, Run_posted 0] (fresh 2) = Inr ([], one_buffered)"
    by (simp add: eval_defs one_buffered_def)
  have q0: "queue one_buffered = [10]"
    by (simp add: eval_defs one_buffered_def)
  from availability_after_mutation[of 0 20 one_buffered s' 10 s'' four_threads 0 1 2 "fresh 2"
      "[Call_push 1 10, Run_posted 0]" "[]" one_buffered] e e' q q' c r q0
  have "available_control s'" and "\<not> available_control s''" and "available_control one_buffered"
    by simp_all
  with e e' q q' c r q0 show ?thesis by blast
qed

subsection \<open>The steps of \<open>push\<close>\<close>

text \<open>
  C5. A push on the source thread never fails. It acquires one drain unit, then takes a
  capacity slot, then posts the append closure to the home thread, in this order, and
  returns with the closure merely posted: the buffer is as before. Where no slot is to be
  had it is suspended after the drain unit, its value kept; once a slot is free the
  suspended push takes it and posts the append closure. Nothing else suspends it.
\<close>

theorem push_steps:
  "(\<exists>s'. push (source_thread s) v s = Inr s' \<and>
      refcount (drain_semaphore s') = refcount (drain_semaphore s) + 1 \<and>
      queue s' = queue s \<and>
      (if waiters s = [] \<and> sem_free s
       then added s s' =
              [(source_thread s, A_drain_acquire), (source_thread s, A_sem_co_lock),
               (source_thread s, A_do_on_thread (home_thread s) (Do_pusher v))] \<and>
            current (semaphore s') = current (semaphore s) + 1 \<and>
            mail s' = mail s @ [(home_thread s, Do_pusher v)] \<and> waiters s' = waiters s
       else added s s' = [(source_thread s, A_drain_acquire), (source_thread s, A_sem_wait)] \<and>
            semaphore s' = semaphore s \<and> mail s' = mail s \<and> waiters s' = waiters s @ [v])) \<and>
   (\<forall>w ws. waiters s = w # ws \<longrightarrow>
      (if sem_free s
       then added s (resume_push s) =
              [(source_thread s, A_sem_co_lock),
               (source_thread s, A_do_on_thread (home_thread s) (Do_pusher w))] \<and>
            current (semaphore (resume_push s)) = current (semaphore s) + 1 \<and>
            mail (resume_push s) = mail s @ [(home_thread s, Do_pusher w)] \<and>
            waiters (resume_push s) = ws \<and> queue (resume_push s) = queue s
       else resume_push s = s))"
  by (simp add: push_def push_post_def resume_push_def added_def collaborator_defs Let_def)

theorem push_steps_witness:
  "(\<exists>s'. push 1 10 (fresh 1) = Inr s' \<and>
      added (fresh 1) s' =
        [(1, A_drain_acquire), (1, A_sem_co_lock), (1, A_do_on_thread 0 (Do_pusher 10))] \<and>
      mail s' = [(0, Do_pusher 10)] \<and> queue s' = []) \<and>
   waiters one_posted_one_suspended = [20] \<and> \<not> sem_free one_posted_one_suspended \<and>
   resume_push one_posted_one_suspended = one_posted_one_suspended"
  using push_steps[of "fresh 1" 10] push_steps[of one_posted_one_suspended 30]
  by (simp add: eval_defs one_posted_one_suspended_def)

subsection \<open>Assertions\<close>

text \<open>Correct usage keeps every posted closure on its thread and teardown quiet.\<close>

lemma routed_append: "routed h st (ms @ ms') = (routed h st ms \<and> routed h st ms')"
  by (induction h st ms rule: routed.induct) auto

lemma take_posted_routed:
  "routed h st ms \<Longrightarrow> take_posted t ms = Some (c, ms') \<Longrightarrow>
   routed h st ms' \<and> (appends ms = [] \<longrightarrow> appends ms' = []) \<and>
   (case c of Do_pusher v \<Rightarrow> t = h \<and> appends ms \<noteq> [] | Do_done_caller \<Rightarrow> t = st)"
proof (induction ms arbitrary: c ms')
  case Nil
  then show ?case by simp
next
  case (Cons m ms)
  obtain t' c0 where m: "m = (t', c0)" by (cases m)
  show ?case
  proof (cases "t' = t")
    case True
    with Cons.prems m show ?thesis by (cases c0) auto
  next
    case False
    with Cons.prems(2) m obtain ms1 where
      tk: "take_posted t ms = Some (c, ms1)" and ms': "ms' = (t', c0) # ms1"
      by (auto split: option.splits)
    from Cons.prems(1) m have ok: "routed h st ms" by (cases c0) auto
    from Cons.IH[OF ok tk] Cons.prems(1) m ms' False show ?thesis
      by (cases c0; cases c) auto
  qed
qed

lemma step_quiet_teardown:
  assumes "quiet_teardown s" and "allowed e s" and "step e s = Inr (out, s')"
  shows "quiet_teardown s'"
proof (cases e)
  case (Run_posted t)
  show ?thesis
  proof (cases "take_posted t (mail s)")
    case None
    with assms Run_posted show ?thesis
      by (auto simp: member_defs split: if_splits)
  next
    case (Some p)
    obtain c ms where p: "p = (c, ms)" by (cases p)
    from assms(1) have "routed (home_thread s) (source_thread s) (mail s)"
      by (simp add: quiet_teardown_def)
    from take_posted_routed[OF this Some[unfolded p]] assms Run_posted Some p show ?thesis
      by (cases c)
         (auto simp: member_defs collaborator_defs quiet_teardown_def Let_def
               split: if_splits sum.splits)
  qed
next
  case (Call_destructor t)
  with assms show ?thesis
    by (auto simp: member_defs collaborator_defs release_times_eq quiet_teardown_def Let_def
             split: if_splits)
next
  case Resume_destructor
  with assms show ?thesis
    by (auto simp: member_defs collaborator_defs quiet_teardown_def Let_def
             split: if_splits lifetime.splits)
qed (use assms in \<open>auto simp: member_defs collaborator_defs quiet_teardown_def
           appends_append routed_append Let_def
           split: if_splits list.splits sum.splits prod.splits\<close>)

lemma step_no_assertion:
  assumes "quiet_teardown s" and "allowed e s"
  shows "step e s \<noteq> Inl Assertion_failed"
proof (cases e)
  case (Run_posted t)
  show ?thesis
  proof (cases "take_posted t (mail s)")
    case None
    with Run_posted show ?thesis
      by (auto simp: member_defs split: if_splits)
  next
    case (Some p)
    obtain c ms where p: "p = (c, ms)" by (cases p)
    from assms(1) have "routed (home_thread s) (source_thread s) (mail s)"
      by (simp add: quiet_teardown_def)
    from take_posted_routed[OF this Some[unfolded p]] assms Run_posted Some p show ?thesis
      by (cases c)
         (auto simp: member_defs collaborator_defs quiet_teardown_def Let_def
               split: if_splits sum.splits)
  qed
qed (use assms in \<open>auto simp: member_defs Let_def split: if_splits list.splits sum.splits prod.splits\<close>)

lemma run_no_assertion:
  "quiet_teardown s \<Longrightarrow> correct_usage evs s \<Longrightarrow> run evs s \<noteq> Inl Assertion_failed"
proof (induction evs arbitrary: s)
  case Nil
  then show ?case by simp
next
  case (Cons e evs)
  from Cons.prems(2) have al: "allowed e s" by simp
  show ?case
  proof (cases "step e s")
    case (Inl f)
    with step_no_assertion[OF Cons.prems(1) al] show ?thesis by auto
  next
    case (Inr p)
    obtain out s1 where p: "p = (out, s1)" by (cases p)
    from Cons.prems(2) Inr p have cu: "correct_usage evs s1" by simp
    from step_quiet_teardown[OF Cons.prems(1) al Inr[unfolded p]] have "quiet_teardown s1" .
    from Cons.IH[OF this cu] Inr p show ?thesis
      by (auto split: sum.splits)
  qed
qed

lemma constructed_quiet_teardown:
  "cross_thread_limited_fifo good h st cap = Inr s \<Longrightarrow> quiet_teardown s"
  by (auto simp: member_defs collaborator_defs quiet_teardown_def Let_def split: if_splits)

text \<open>
  C6, amended. The only failure of \<open>push\<close>, of the completion operation and of the
  append operation is the fatal assertion: \<open>push\<close> and the completion operation fail
  exactly when run on a thread other than the source thread, the append operation exactly
  when run on a thread other than the home thread or with the destruction flag set.
  \<open>produce_next_value\<close> hits an assertion exactly under the same condition as the
  append operation; its one other failure, the pop of an empty buffer, is undefined
  behaviour that no assertion reports. In a history from the constructor in which
  \<open>push\<close> is called on the source thread and \<open>produce_next_value\<close> on the home
  thread, neither after teardown has begun, and the destructor is called only when no
  append is in flight and no push is suspended, no assertion fires.
\<close>

theorem contract_assertions:
  "(push t v s = Inl f \<longleftrightarrow> f = Assertion_failed \<and> t \<noteq> source_thread s) \<and>
   (do_done t s = Inl f \<longleftrightarrow> f = Assertion_failed \<and> t \<noteq> source_thread s) \<and>
   (do_push t v s = Inl f \<longleftrightarrow> f = Assertion_failed \<and> (t \<noteq> home_thread s \<or> in_destructor s)) \<and>
   (produce_next_value t s = Inl f \<longleftrightarrow>
      f = Assertion_failed \<and> (t \<noteq> home_thread s \<or> in_destructor s) \<or>
      f = Undefined_behaviour \<and> t = home_thread s \<and> \<not> in_destructor s \<and> queue s = []) \<and>
   (cross_thread_limited_fifo good h st cap = Inr s0 \<and> correct_usage evs s0 \<longrightarrow>
      run evs s0 \<noteq> Inl Assertion_failed)"
proof -
  have "push t v s = Inl f \<longleftrightarrow> f = Assertion_failed \<and> t \<noteq> source_thread s"
    by (auto simp: push_def Let_def)
  moreover
  have "do_done t s = Inl f \<longleftrightarrow> f = Assertion_failed \<and> t \<noteq> source_thread s"
    by (auto simp: do_done_def)
  moreover
  have "do_push t v s = Inl f \<longleftrightarrow> f = Assertion_failed \<and> (t \<noteq> home_thread s \<or> in_destructor s)"
    by (auto simp: do_push_def Let_def)
  moreover
  have "produce_next_value t s = Inl f \<longleftrightarrow>
      f = Assertion_failed \<and> (t \<noteq> home_thread s \<or> in_destructor s) \<or>
      f = Undefined_behaviour \<and> t = home_thread s \<and> \<not> in_destructor s \<and> queue s = []"
    by (auto simp: produce_next_value_def Let_def split: list.splits)
  moreover
  have "cross_thread_limited_fifo good h st cap = Inr s0 \<and> correct_usage evs s0 \<longrightarrow>
      run evs s0 \<noteq> Inl Assertion_failed"
    using constructed_quiet_teardown run_no_assertion by blast
  ultimately show ?thesis by blast
qed

theorem contract_assertions_witness:
  "push 0 10 (fresh 1) = Inl Assertion_failed \<and>
   do_done 0 (fresh 1) = Inl Assertion_failed \<and>
   do_push 1 10 (fresh 1) = Inl Assertion_failed \<and>
   produce_next_value 1 one_buffered = Inl Assertion_failed \<and>
   do_push 0 10 (destructor 0 (fresh 1)) = Inl Assertion_failed \<and>
   produce_next_value 0 (destructor 0 one_buffered) = Inl Assertion_failed \<and>
   produce_next_value 0 (fresh 1) = Inl Undefined_behaviour \<and>
   push 1 10 (fresh 1) \<noteq> Inl Assertion_failed \<and>
   do_done 1 (fresh 1) \<noteq> Inl Assertion_failed \<and>
   do_push 0 10 (fresh 1) \<noteq> Inl Assertion_failed \<and>
   produce_next_value 0 one_buffered \<noteq> Inl Assertion_failed \<and>
   cross_thread_limited_fifo four_threads 0 1 2 = Inr (fresh 2) \<and>
   correct_usage [Call_push 1 10, Call_push 1 20, Run_posted 0, Call_produce_next_value 0,
                  Run_posted 0, Run_posted 1, Call_destructor 0] (fresh 2) \<and>
   run [Call_push 1 10, Call_push 1 20, Run_posted 0, Call_produce_next_value 0,
        Run_posted 0, Run_posted 1, Call_destructor 0] (fresh 2) \<noteq> Inl Assertion_failed"
proof -
  let ?evs = "[Call_push 1 10, Call_push 1 20, Run_posted 0, Call_produce_next_value 0,
               Run_posted 0, Run_posted 1, Call_destructor 0 :: nat event]"
  have t: "source_thread (fresh 1) = 1" "home_thread (fresh 1) = 0" "\<not> in_destructor (fresh 1)"
    "queue (fresh 1) = []"
    "home_thread one_buffered = 0" "\<not> in_destructor one_buffered" "queue one_buffered = [10]"
    "home_thread (destructor 0 (fresh 1)) = 0" "in_destructor (destructor 0 (fresh 1))"
    "home_thread (destructor 0 one_buffered) = 0" "in_destructor (destructor 0 one_buffered)"
    by (simp_all add: eval_defs one_buffered_def release_times_eq)
  have a1: "push 0 10 (fresh 1) = Inl Assertion_failed"
    using contract_assertions[of 0 10 "fresh 1" Assertion_failed, THEN conjunct1] t by simp
  have a2: "do_done 0 (fresh 1) = Inl Assertion_failed"
    using contract_assertions[of 0 10 "fresh 1" Assertion_failed, THEN conjunct2, THEN conjunct1] t
    by simp
  have a3: "do_push 1 10 (fresh 1) = Inl Assertion_failed"
    using contract_assertions[of 1 10 "fresh 1" Assertion_failed, THEN conjunct2, THEN conjunct2,
      THEN conjunct1] t
    by simp
  have a4: "produce_next_value 1 one_buffered = Inl Assertion_failed"
    using contract_assertions[of 1 10 one_buffered Assertion_failed, THEN conjunct2,
      THEN conjunct2, THEN conjunct2, THEN conjunct1] t
    by simp
  have a5: "do_push 0 10 (destructor 0 (fresh 1)) = Inl Assertion_failed"
    using contract_assertions[of 0 10 "destructor 0 (fresh 1)" Assertion_failed, THEN conjunct2,
      THEN conjunct2, THEN conjunct1] t
    by simp
  have a6: "produce_next_value 0 (destructor 0 one_buffered) = Inl Assertion_failed"
    using contract_assertions[of 0 10 "destructor 0 one_buffered" Assertion_failed, THEN conjunct2,
      THEN conjunct2, THEN conjunct2, THEN conjunct1] t
    by simp
  have a7: "produce_next_value 0 (fresh 1) = Inl Undefined_behaviour"
    using contract_assertions[of 0 10 "fresh 1" Undefined_behaviour, THEN conjunct2,
      THEN conjunct2, THEN conjunct2, THEN conjunct1] t
    by simp
  have b1: "push 1 10 (fresh 1) \<noteq> Inl Assertion_failed"
    using contract_assertions[of 1 10 "fresh 1" Assertion_failed, THEN conjunct1] t by simp
  have b2: "do_done 1 (fresh 1) \<noteq> Inl Assertion_failed"
    using contract_assertions[of 1 10 "fresh 1" Assertion_failed, THEN conjunct2, THEN conjunct1] t
    by simp
  have b3: "do_push 0 10 (fresh 1) \<noteq> Inl Assertion_failed"
    using contract_assertions[of 0 10 "fresh 1" Assertion_failed, THEN conjunct2, THEN conjunct2,
      THEN conjunct1] t
    by simp
  have b4: "produce_next_value 0 one_buffered \<noteq> Inl Assertion_failed"
    using contract_assertions[of 0 10 one_buffered Assertion_failed, THEN conjunct2,
      THEN conjunct2, THEN conjunct2, THEN conjunct1] t
    by simp
  have c: "cross_thread_limited_fifo four_threads 0 1 2 = Inr (fresh 2)"
    by (simp add: eval_defs)
  have u: "correct_usage ?evs (fresh 2)"
    by (simp add: eval_defs release_times_eq)
  from contract_assertions[THEN conjunct2, THEN conjunct2, THEN conjunct2, THEN conjunct2,
      rule_format, OF conjI, OF c u]
  have n: "run ?evs (fresh 2) \<noteq> Inl Assertion_failed" .
  from a1 a2 a3 a4 a5 a6 a7 b1 b2 b3 b4 c u n show ?thesis by blast
qed

text \<open>
  C6 as stated fails: a push on the source thread before teardown, then the destructor on
  the home thread; the append the push posted runs on the home thread after the
  destruction flag is set and hits the assertion, although every call was on the right
  thread and none came after teardown had begun. And \<open>produce_next_value\<close> on the
  home thread with the availability signal false violates its contract without any
  assertion firing.
\<close>

theorem assertion_fires_on_append_in_flight:
  "cross_thread_limited_fifo four_threads 0 1 2 = Inr (fresh 2) \<and>
   source_thread (fresh 2) = 1 \<and> home_thread (fresh 2) = 0 \<and> \<not> in_destructor (fresh 2) \<and>
   run [Call_push 1 10] (fresh 2) = Inr ([], state_after [Call_push 1 10] (fresh 2)) \<and>
   \<not> in_destructor (state_after [Call_push 1 10] (fresh 2)) \<and>
   run [Call_push 1 10, Call_destructor 0] (fresh 2) =
     Inr ([], state_after [Call_push 1 10, Call_destructor 0] (fresh 2)) \<and>
   mail (state_after [Call_push 1 10, Call_destructor 0] (fresh 2)) = [(0, Do_pusher 10)] \<and>
   run [Call_push 1 10, Call_destructor 0, Run_posted 0] (fresh 2) = Inl Assertion_failed \<and>
   available_control (fresh 2) = False \<and>
   produce_next_value 0 (fresh 2) = Inl Undefined_behaviour \<and>
   produce_next_value 0 (fresh 2) \<noteq> Inl Assertion_failed"
  by (simp add: eval_defs release_times_eq)

text \<open>
  C9. On the home thread and before teardown, \<open>produce_next_value\<close> on an empty
  buffer is undefined behaviour, not an assertion failure; on a non-empty buffer it
  returns the head and leaves the tail.
\<close>

theorem produce_next_value_front:
  "t = home_thread s \<Longrightarrow> \<not> in_destructor s \<Longrightarrow>
   (queue s = [] \<longrightarrow> produce_next_value t s = Inl Undefined_behaviour) \<and>
   (\<forall>v q. queue s = v # q \<longrightarrow> (\<exists>s'. produce_next_value t s = Inr (v, s') \<and> queue s' = q))"
  by (simp add: produce_next_value_def collaborator_defs Let_def)

theorem produce_next_value_front_witness:
  "home_thread (fresh 2) = 0 \<and> \<not> in_destructor (fresh 2) \<and> queue (fresh 2) = [] \<and>
   produce_next_value 0 (fresh 2) = Inl Undefined_behaviour \<and>
   home_thread one_buffered = 0 \<and> \<not> in_destructor one_buffered \<and> queue one_buffered = [10] \<and>
   (\<exists>s'. produce_next_value 0 one_buffered = Inr (10, s') \<and> queue s' = [])"
proof -
  have a: "0 = home_thread (fresh 2)" "\<not> in_destructor (fresh 2)" "queue (fresh 2) = []"
    by (simp_all add: eval_defs one_buffered_def)
  have b: "0 = home_thread one_buffered" "\<not> in_destructor one_buffered"
    "queue one_buffered = [10]"
    by (simp_all add: eval_defs one_buffered_def)
  from produce_next_value_front[OF a(1,2)] a(3)
  have 1: "produce_next_value 0 (fresh 2) = Inl Undefined_behaviour" by simp
  from produce_next_value_front[OF b(1,2)] b(3)
  have 2: "\<exists>s'. produce_next_value 0 one_buffered = Inr (10, s') \<and> queue s' = []" by simp
  from a b 1 2 show ?thesis by simp
qed

subsection \<open>The home of the drain primitive\<close>

text \<open>
  C7, amended. In every state reached from the constructor, the drain primitive's home
  is the source thread until the destructor has returned and the home thread afterwards,
  and every acquire, release and drain of its counter ran on the source thread: the
  constructor hands the primitive to the source thread, the last step of the destructor
  hands it back.
\<close>

theorem drain_home_is_source:
  assumes "cross_thread_limited_fifo good h st cap = Inr s0" and "run evs s0 = Inr (outs, s)"
  shows "drain_home (drain_semaphore s) = (if dtor s = Destroyed then home_thread s else source_thread s) \<and>
         (\<forall>(t, a) \<in> set (trace s). drain_op a \<longrightarrow> t = source_thread s)"
proof -
  have "drain_on_source s"
  proof (rule run_invariant[where P = drain_on_source, OF _ _ assms(2)])
    show "drain_on_source s0"
      using constructed_threads[OF assms(1)] by (auto simp: drain_on_source_def)
  qed (rule step_drain_on_source)
  then show ?thesis by (simp add: drain_on_source_def)
qed

theorem drain_home_is_source_witness:
  "cross_thread_limited_fifo four_threads 0 1 2 = Inr (fresh 2) \<and>
   run [Call_push 1 10, Run_posted 0] (fresh 2) = Inr ([], one_buffered) \<and>
   dtor one_buffered = Alive \<and> source_thread one_buffered = 1 \<and>
   drain_home (drain_semaphore one_buffered) = 1 \<and>
   run [Call_push 1 10, Run_posted 0, Call_destructor 0] (fresh 2) = Inr ([], torn_down) \<and>
   dtor torn_down = Destroyed \<and> home_thread torn_down = 0 \<and>
   drain_home (drain_semaphore torn_down) = 0 \<and>
   (1, A_drain_acquire) \<in> set (trace torn_down)"
proof -
  have c: "cross_thread_limited_fifo four_threads 0 1 2 = Inr (fresh 2)"
    by (simp add: eval_defs one_buffered_def torn_down_def)
  have r1: "run [Call_push 1 10, Run_posted 0] (fresh 2) = Inr ([], one_buffered)"
    by (simp add: eval_defs one_buffered_def torn_down_def)
  have r2: "run [Call_push 1 10, Run_posted 0, Call_destructor 0] (fresh 2) = Inr ([], torn_down)"
    by (simp add: eval_defs one_buffered_def torn_down_def)
  have f: "dtor one_buffered = Alive" "source_thread one_buffered = 1"
    "dtor torn_down = Destroyed" "home_thread torn_down = 0"
    "(1, A_drain_acquire) \<in> set (trace torn_down)"
    by (simp_all add: eval_defs one_buffered_def torn_down_def)
  from drain_home_is_source[OF c r1] f
  have 1: "drain_home (drain_semaphore one_buffered) = 1" by simp
  from drain_home_is_source[OF c r2] f
  have 2: "drain_home (drain_semaphore torn_down) = 0" by simp
  from c r1 r2 f 1 2 show ?thesis by simp
qed

text \<open>
  C7 as stated fails: a queue just constructed on home thread \<open>0\<close> for source thread
  \<open>1\<close> is not in teardown, yet its drain primitive's home is thread \<open>1\<close>; and a push
  before any teardown acquires the drain unit on thread \<open>1\<close>.
\<close>

theorem drain_home_not_home_thread:
  "cross_thread_limited_fifo four_threads 0 1 2 = Inr (fresh 2) \<and>
   dtor (fresh 2) = Alive \<and> \<not> in_destructor (fresh 2) \<and>
   home_thread (fresh 2) = 0 \<and> source_thread (fresh 2) = 1 \<and>
   drain_home (drain_semaphore (fresh 2)) = 1 \<and>
   drain_home (drain_semaphore (fresh 2)) \<noteq> home_thread (fresh 2) \<and>
   dtor (state_after [Call_push 1 10] (fresh 2)) = Alive \<and>
   added (fresh 2) (state_after [Call_push 1 10] (fresh 2)) =
     [(1, A_drain_acquire), (1, A_sem_co_lock), (1, A_do_on_thread 0 (Do_pusher 10))]"
  by (simp add: eval_defs)

subsection \<open>Changing the capacity\<close>

text \<open>
  C8. Called on any thread \<open>t\<close>, \<open>set_capacity n\<close> never fails: it switches to the
  source thread, sets the semaphore's bound to \<open>n\<close> there, leaving the acquired slots
  alone, and switches back to \<open>t\<close>.
\<close>

theorem set_capacity_steps:
  "added s (set_capacity t n s) =
     [(t, A_on_thread (source_thread s)), (source_thread s, A_sem_set_capacity n),
      (source_thread s, A_on_thread_exit t)] \<and>
   capacity (semaphore (set_capacity t n s)) = n \<and>
   current (semaphore (set_capacity t n s)) = current (semaphore s)"
  by (simp add: set_capacity_def added_def collaborator_defs Let_def)

theorem set_capacity_steps_witness:
  "added (fresh 2) (set_capacity 3 7 (fresh 2)) =
     [(3, A_on_thread 1), (1, A_sem_set_capacity 7), (1, A_on_thread_exit 3)] \<and>
   capacity (semaphore (set_capacity 3 7 (fresh 2))) = 7 \<and>
   current (semaphore (set_capacity 3 7 (fresh 2))) = 0"
  using set_capacity_steps[of "fresh 2" 3 7]
  by (simp add: eval_defs)

end
